theory Spec2Isabelle
  imports Main
begin

section \<open>The document model (gopkg.in/yaml.v3 nodes)\<close>

text \<open>
  The path engine of package \<open>cft\<close> walks \<open>yaml.Node\<close> values.  Of that struct the
  code reads three fields only: \<open>Kind\<close>, \<open>Value\<close> and \<open>Content\<close>.  The kinds are the
  five constants of yaml.v3; the engine compares against the first four and treats an
  alias node like any other node that is neither document, mapping nor sequence.
  \<open>Content\<close> is a slice of pointers to nodes; the model is the finite tree they form,
  without nil entries.
\<close>

datatype kind = DocumentNode | SequenceNode | MappingNode | ScalarNode | AliasNode

datatype node = Node (Kind: kind) (Value: string) (Content: "node list")

text \<open>\<open>type Template struct { yaml.Node }\<close>\<close>

datatype template = Template (tNode: node)

text \<open>
  The only run-time failure the engine can raise is Go's panic on a slice index that
  is out of range.  It is a value of the model: \<open>Inl IndexOutOfRange\<close>.
\<close>

datatype error = IndexOutOfRange

text \<open>
  \<open>xs[i]\<close> on a Go slice with a signed index: a panic when \<open>i\<close> is negative or not
  below the length.
\<close>

definition index :: "node list \<Rightarrow> int \<Rightarrow> error + node" where
  "index xs i = (if 0 \<le> i \<and> i < int (length xs) then Inr (xs ! nat i) else Inl IndexOutOfRange)"

section \<open>Library functions of Go used by the engine\<close>

subsection \<open>\<open>strings.Index\<close> and \<open>strings.Split\<close>\<close>

text \<open>
  \<open>Index s sep\<close> is the position of the leftmost occurrence of \<open>sep\<close> in \<open>s\<close>, or
  \<open>None\<close> (Go returns -1).
\<close>

fun Index :: "string \<Rightarrow> string \<Rightarrow> nat option" where
  "Index [] sep = (if sep = [] then Some 0 else None)"
| "Index (c # cs) sep =
     (if take (length sep) (c # cs) = sep then Some 0 else map_option Suc (Index cs sep))"

text \<open>
  \<open>strings.Split(s, sep)\<close> for a non-empty separator, as \<open>genSplit\<close> computes it: cut
  at the leftmost occurrence of \<open>sep\<close>, continue behind it, and end with what is left.
  All occurrences are cut, and the result is never empty: \<open>Split("", "/")\<close> is \<open>[""]\<close>.
  The engine calls it with the separators \<open>"/"\<close>, \<open>"|"\<close> and \<open>"=="\<close> only.  For the
  empty separator, which the engine never passes, Go explodes the string into its
  characters; the first branch does so for strings of one-byte characters.
\<close>

function Split :: "string \<Rightarrow> string \<Rightarrow> string list" where
  "Split s sep =
     (if sep = [] then map (\<lambda>c. [c]) s
      else case Index s sep of
             None \<Rightarrow> [s]
           | Some m \<Rightarrow> take m s # Split (drop (m + length sep) s) sep)"
  by pat_completeness auto

lemma Index_Some_less: "Index s sep = Some m \<Longrightarrow> m + length sep \<le> length s"
proof (induction s arbitrary: m)
  case Nil
  then show ?case by (simp split: if_splits)
next
  case (Cons c cs)
  show ?case
  proof (cases "take (length sep) (c # cs) = sep")
    case True
    then have "length (take (length sep) (c # cs)) = length sep"
      by simp
    then have "length sep \<le> length (c # cs)"
      by simp
    with True Cons.prems show ?thesis by simp
  next
    case False
    with Cons.prems obtain k where "Index cs sep = Some k" "m = Suc k"
      by auto
    with Cons.IH show ?thesis by simp
  qed
qed

termination Split
proof (relation "measure (\<lambda>(s, sep). length s)")
  show "wf (measure (\<lambda>(s, sep). length s))" by simp
next
  fix s sep :: string and m
  assume "sep \<noteq> []" and "Index s sep = Some m"
  then have "m + length sep \<le> length s" and "0 < length sep"
    by (simp_all add: Index_Some_less)
  then have "length s - (m + length sep) < length s"
    by arith
  then show "((drop (m + length sep) s, sep), (s, sep)) \<in> measure (\<lambda>(s, sep). length s)"
    by simp
qed

declare Split.simps [simp del]

subsection \<open>\<open>strconv.Atoi\<close>\<close>

text \<open>
  \<open>strconv.Atoi\<close> on a 64-bit platform: an optional sign \<open>+\<close> or \<open>-\<close>, then one or
  more decimal digits and nothing else; a value outside the range of \<open>int\<close> is an
  error as well.  \<open>None\<close> stands for \<open>err != nil\<close>.
\<close>

definition digit :: "char \<Rightarrow> int option" where
  "digit c = (let k = (of_char c :: int) in if 48 \<le> k \<and> k \<le> 57 then Some (k - 48) else None)"

fun digits :: "int \<Rightarrow> string \<Rightarrow> int option" where
  "digits acc [] = Some acc"
| "digits acc (c # cs) = (case digit c of None \<Rightarrow> None | Some d \<Rightarrow> digits (acc * 10 + d) cs)"

definition Atoi :: "string \<Rightarrow> int option" where
  "Atoi s =
     (let neg = (s \<noteq> [] \<and> hd s = CHR ''-'');
          ds = (if s \<noteq> [] \<and> (hd s = CHR ''-'' \<or> hd s = CHR ''+'') then tl s else s)
      in if ds = [] then None
         else case digits 0 ds of
                None \<Rightarrow> None
              | Some u \<Rightarrow>
                  if neg then (if u > 2 ^ 63 then None else Some (- u))
                  else (if u \<ge> 2 ^ 63 then None else Some u))"

section \<open>The filter evaluator\<close>

text \<open>
  Lines 136-141 of \<open>filter\<close>: the loop over a mapping's content in steps of two, that
  stops at the first key equal to \<open>k\<close> and reads the element behind it.  A content of
  odd length whose last element is that key makes \<open>n.Content[i+1]\<close> panic.
\<close>

fun lookupValue :: "string \<Rightarrow> node list \<Rightarrow> error + node option" where
  "lookupValue k [] = Inr None"
| "lookupValue k [key] = (if Value key = k then Inl IndexOutOfRange else Inr None)"
| "lookupValue k (key # v # rest) = (if Value key = k then Inr (Some v) else lookupValue k rest)"

text \<open>
  Lines 134-154: the child the clause looks at; \<open>Inr None\<close> is the \<open>return false\<close> of
  a missing key, of an index that does not parse or is too large, and of a candidate
  that is neither mapping nor sequence.
\<close>

definition lookupChild :: "node \<Rightarrow> string \<Rightarrow> error + node option" where
  "lookupChild n k =
     (if Kind n = MappingNode then lookupValue k (Content n)
      else if Kind n = SequenceNode then
        (case Atoi k of
           None \<Rightarrow> Inr None
         | Some i \<Rightarrow>
             if i \<ge> int (length (Content n)) then Inr None
             else (case index (Content n) i of Inl e \<Rightarrow> Inl e | Inr v \<Rightarrow> Inr (Some v)))
      else Inr None)"

text \<open>
  One round of the loop of \<open>filter\<close> (lines 132-162) for the query \<open>q\<close>: \<open>Inr False\<close>
  is \<open>return false\<close>, \<open>Inr True\<close> lets the loop go on.  Both branches of the inner test
  on the kind of the child return false, as in the source.
\<close>

definition filterClause :: "node \<Rightarrow> string \<Rightarrow> error + bool" where
  "filterClause n q =
     (let parts = Split q ''==''
      in case lookupChild n (parts ! 0) of
           Inl e \<Rightarrow> Inl e
         | Inr None \<Rightarrow> Inr False
         | Inr (Some v) \<Rightarrow>
             if length parts = 2 \<and> Value v \<noteq> parts ! 1
             then (if Kind v \<noteq> ScalarNode then Inr False else Inr False)
             else Inr True)"

fun filter_node :: "node \<Rightarrow> string list \<Rightarrow> error + bool" where
  "filter_node n [] = Inr True"
| "filter_node n (q # query) =
     (case filterClause n q of
        Inl e \<Rightarrow> Inl e
      | Inr ok \<Rightarrow> if ok then filter_node n query else Inr False)"

section \<open>The path matcher\<close>

text \<open>
  The channel is modelled by the sequence of nodes sent on it so far; \<open>ch <- n\<close>
  appends.  A function that sends takes the channel and returns it updated, or the
  panic that ended the run.
\<close>

type_synonym chan = "node list"

text \<open>\<open>for _, x := range xs { body }\<close>\<close>

fun forEach :: "(node \<Rightarrow> chan \<Rightarrow> error + chan) \<Rightarrow> node list \<Rightarrow> chan \<Rightarrow> error + chan" where
  "forEach body [] ch = Inr ch"
| "forEach body (x # xs) ch =
     (case body x ch of Inl e \<Rightarrow> Inl e | Inr ch' \<Rightarrow> forEach body xs ch')"

text \<open>
  \<open>for i := 0; i < len(xs); i += 2 { body(xs[i+1]) }\<close> (lines 83-85): a last element
  without a successor makes \<open>xs[i+1]\<close> panic.
\<close>

fun forValues :: "(node \<Rightarrow> chan \<Rightarrow> error + chan) \<Rightarrow> node list \<Rightarrow> chan \<Rightarrow> error + chan" where
  "forValues body [] ch = Inr ch"
| "forValues body [key] ch = Inl IndexOutOfRange"
| "forValues body (key # v # rest) ch =
     (case body v ch of Inl e \<Rightarrow> Inl e | Inr ch' \<Rightarrow> forValues body rest ch')"

text \<open>
  \<open>for i := 0; i < len(xs); i += 2 { key := xs[i]; if sel(key) { value := xs[i+1]; body(value) } }\<close>
  (lines 101-110): \<open>xs[i+1]\<close> is read only for a selected key.
\<close>

fun forEntries ::
  "(node \<Rightarrow> bool) \<Rightarrow> (node \<Rightarrow> chan \<Rightarrow> error + chan) \<Rightarrow> node list \<Rightarrow> chan \<Rightarrow> error + chan" where
  "forEntries sel body [] ch = Inr ch"
| "forEntries sel body [key] ch = (if sel key then Inl IndexOutOfRange else Inr ch)"
| "forEntries sel body (key # v # rest) ch =
     (case (if sel key then body v ch else Inr ch) of
        Inl e \<Rightarrow> Inl e
      | Inr ch' \<Rightarrow> forEntries sel body rest ch')"

lemma forEach_cong [fundef_cong]:
  "xs = ys \<Longrightarrow> ch = ch' \<Longrightarrow> (\<And>x c. x \<in> set ys \<Longrightarrow> f x c = g x c)
   \<Longrightarrow> forEach f xs ch = forEach g ys ch'"
  by (induction ys arbitrary: xs ch ch') (auto split: sum.splits)

lemma forValues_cong [fundef_cong]:
  "xs = ys \<Longrightarrow> ch = ch' \<Longrightarrow> (\<And>x c. x \<in> set ys \<Longrightarrow> f x c = g x c)
   \<Longrightarrow> forValues f xs ch = forValues g ys ch'"
  by (induction f ys ch' arbitrary: xs ch rule: forValues.induct) (auto split: sum.splits)

lemma forEntries_cong [fundef_cong]:
  "xs = ys \<Longrightarrow> ch = ch' \<Longrightarrow> sel = sel' \<Longrightarrow> (\<And>x c. x \<in> set ys \<Longrightarrow> f x c = g x c)
   \<Longrightarrow> forEntries sel f xs ch = forEntries sel' g ys ch'"
  by (induction sel' f ys ch' arbitrary: xs ch rule: forEntries.induct) (auto split: sum.splits)

text \<open>Lines 94-98: the match key and the query list of a segment.\<close>

definition matchKey :: "string \<Rightarrow> string" where
  "matchKey head = (let parts = Split head ''|'' in if length parts = 2 then parts ! 0 else head)"

definition matchQuery :: "string \<Rightarrow> string list" where
  "matchQuery head = (let parts = Split head ''|'' in if length parts = 2 then drop 1 parts else [])"

lemma index_in_set: "index xs i = Inr v \<Longrightarrow> v \<in> set xs"
  by (auto simp: index_def split: if_splits)

lemma size_Content: "x \<in> set (Content n) \<Longrightarrow> size x < size n"
  by (cases n) (auto simp: less_Suc_eq_le dest: size_list_estimation')

function matchPath :: "chan \<Rightarrow> node \<Rightarrow> string list \<Rightarrow> error + chan" where
  "matchPath ch n path =
     (if Kind n = DocumentNode then forEach (\<lambda>doc c. matchPath c doc path) (Content n) ch
      else case path of
        [] \<Rightarrow> Inr (ch @ [n])
      | head # tail \<Rightarrow>
         (case (if head = ''**'' then
                  (case matchPath ch n tail of
                     Inl e \<Rightarrow> Inl e
                   | Inr c1 \<Rightarrow>
                       if Kind n = MappingNode
                       then forValues (\<lambda>v c. matchPath c v path) (Content n) c1
                       else if Kind n = SequenceNode
                       then forEach (\<lambda>child c. matchPath c child path) (Content n) c1
                       else Inr c1)
                else Inr ch) of
            Inl e \<Rightarrow> Inl e
          | Inr c2 \<Rightarrow>
              if Kind n = MappingNode then
                forEntries (\<lambda>key. matchKey head = ''*'' \<or> Value key = matchKey head)
                  (\<lambda>v c. case filter_node v (matchQuery head) of
                            Inl e \<Rightarrow> Inl e
                          | Inr ok \<Rightarrow> if ok then matchPath c v tail else Inr c)
                  (Content n) c2
              else if Kind n = SequenceNode then
                (if matchKey head = ''*'' then
                   forEach (\<lambda>child c. case filter_node child (matchQuery head) of
                                         Inl e \<Rightarrow> Inl e
                                       | Inr ok \<Rightarrow> if ok then matchPath c child tail else Inr c)
                     (Content n) c2
                 else
                   (case Atoi (matchKey head) of
                      None \<Rightarrow> Inr c2
                    | Some i \<Rightarrow>
                        if i < int (length (Content n)) then
                          (case index (Content n) i of
                             Inl e \<Rightarrow> Inl e
                           | Inr v \<Rightarrow>
                               (case filter_node v (matchQuery head) of
                                  Inl e \<Rightarrow> Inl e
                                | Inr ok \<Rightarrow> if ok then matchPath c2 v tail else Inr c2))
                        else Inr c2))
              else Inr c2))"
  by pat_completeness auto

termination matchPath
  by (relation "inv_image (less_than <*lex*> less_than) (\<lambda>(ch, n, path). (size n, length path))")
     (auto simp: size_Content dest: index_in_set)

declare matchPath.simps [simp del]

text \<open>
  \<open>MatchPath\<close>: the goroutine runs \<open>matchPath\<close> on a fresh channel with the path split at
  \<open>/\<close> and closes the channel; the result is all that was sent, or the panic.
\<close>

definition MatchPath :: "template \<Rightarrow> string \<Rightarrow> error + node list" where
  "MatchPath t path = matchPath [] (tNode t) (Split path ''/'')"

text \<open>\<open>GetPath\<close>: \<open>None\<close> is the nil pointer.\<close>

definition GetPath :: "template \<Rightarrow> string \<Rightarrow> error + node option" where
  "GetPath t path =
     (case MatchPath t path of
        Inl e \<Rightarrow> Inl e
      | Inr results \<Rightarrow> if length results \<noteq> 1 then Inr None else Inr (Some (results ! 0)))"

section \<open>Names for the parts of \<open>matchPath\<close>\<close>

text \<open>
  Lines 82-90: the descent of a \<open>**\<close> head, \<open>matchPath\<close> with the whole path on every
  value of a mapping or on every element of a sequence.
\<close>

definition descend :: "chan \<Rightarrow> node \<Rightarrow> string list \<Rightarrow> error + chan" where
  "descend ch n path =
     (if Kind n = MappingNode then forValues (\<lambda>v c. matchPath c v path) (Content n) ch
      else if Kind n = SequenceNode then forEach (\<lambda>child c. matchPath c child path) (Content n) ch
      else Inr ch)"

text \<open>\<open>if filter(value, query) { matchPath(ch, value, tail) }\<close> (lines 106-108, 114-116, 122-124).\<close>

definition matchIf :: "string list \<Rightarrow> string list \<Rightarrow> node \<Rightarrow> chan \<Rightarrow> error + chan" where
  "matchIf query tail v ch =
     (case filter_node v query of
        Inl e \<Rightarrow> Inl e
      | Inr ok \<Rightarrow> if ok then matchPath ch v tail else Inr ch)"

text \<open>Lines 100-127: the matching of the head against the entries of the node.\<close>

definition plainStep :: "chan \<Rightarrow> node \<Rightarrow> string \<Rightarrow> string list \<Rightarrow> error + chan" where
  "plainStep ch n head tail =
     (if Kind n = MappingNode then
        forEntries (\<lambda>key. matchKey head = ''*'' \<or> Value key = matchKey head)
          (matchIf (matchQuery head) tail) (Content n) ch
      else if Kind n = SequenceNode then
        (if matchKey head = ''*'' then forEach (matchIf (matchQuery head) tail) (Content n) ch
         else
           (case Atoi (matchKey head) of
              None \<Rightarrow> Inr ch
            | Some i \<Rightarrow>
                if i < int (length (Content n)) then
                  (case index (Content n) i of
                     Inl e \<Rightarrow> Inl e
                   | Inr v \<Rightarrow> matchIf (matchQuery head) tail v ch)
                else Inr ch))
      else Inr ch)"

section \<open>What a run sends\<close>

text \<open>\<open>extend ch r\<close>: the channel \<open>ch\<close> after the nodes of \<open>r\<close> were sent on it.\<close>

definition extend :: "chan \<Rightarrow> error + chan \<Rightarrow> error + chan" where
  "extend ch r = (case r of Inl e \<Rightarrow> Inl e | Inr out \<Rightarrow> Inr (ch @ out))"

text \<open>The nodes sent by running \<open>g\<close> on each element in turn, up to the first panic.\<close>

fun collect :: "(node \<Rightarrow> error + chan) \<Rightarrow> node list \<Rightarrow> error + chan" where
  "collect g [] = Inr []"
| "collect g (x # xs) = (case g x of Inl e \<Rightarrow> Inl e | Inr a \<Rightarrow> extend a (collect g xs))"

text \<open>
  The values of a mapping's content whose key is selected, and the keys: the elements
  at the even positions, which lines 101-110 and 136-141 read as keys.
\<close>

fun selValues :: "(node \<Rightarrow> bool) \<Rightarrow> node list \<Rightarrow> node list" where
  "selValues sel (key # v # rest) = (if sel key then v # selValues sel rest else selValues sel rest)"
| "selValues sel rest = []"

fun mapKeys :: "node list \<Rightarrow> node list" where
  "mapKeys (key # v # rest) = key # mapKeys rest"
| "mapKeys rest = rest"


section \<open>Nodes as the parser builds them\<close>

text \<open>
  The nodes that yaml.v3 builds carry a literal value only when they are scalars, and
  the content of a mapping alternates keys and values.  The examples below are built
  from these.
\<close>

definition scalar :: "string \<Rightarrow> node" where
  "scalar v = Node ScalarNode v []"

definition mapping :: "node list \<Rightarrow> node" where
  "mapping cs = Node MappingNode [] cs"

definition sequence :: "node list \<Rightarrow> node" where
  "sequence cs = Node SequenceNode [] cs"

definition document :: "node list \<Rightarrow> node" where
  "document cs = Node DocumentNode [] cs"

text \<open>
  The template
  \<^verbatim>\<open>
  Resources:
    A: {Type: X, Properties: {Name: foo}}
    B: {Type: Y}
  \<close>
\<close>

definition resources :: template where
  "resources = Template (document [mapping [scalar ''Resources'', mapping
     [scalar ''A'', mapping [scalar ''Type'', scalar ''X'',
                             scalar ''Properties'', mapping [scalar ''Name'', scalar ''foo'']],
      scalar ''B'', mapping [scalar ''Type'', scalar ''Y'']]]])"

section \<open>Basic facts\<close>

subsection \<open>The equations of \<open>matchPath\<close>\<close>

lemma extend_simps [simp]:
  "extend ch (Inl e) = Inl e" "extend ch (Inr out) = Inr (ch @ out)"
  by (simp_all add: extend_def)

lemma extend_extend [simp]: "extend a (extend b r) = extend (a @ b) r"
  by (cases r) simp_all

lemma extend_Nil [simp]: "extend [] r = r"
  by (cases r) simp_all

lemma error_eq [simp]: "(e :: error) = IndexOutOfRange"
  by (cases e) simp

lemma matchPath_Document:
  "Kind n = DocumentNode \<Longrightarrow>
   matchPath ch n path = forEach (\<lambda>doc c. matchPath c doc path) (Content n) ch"
  by (subst matchPath.simps) simp

lemma matchPath_Nil: "Kind n \<noteq> DocumentNode \<Longrightarrow> matchPath ch n [] = Inr (ch @ [n])"
  by (subst matchPath.simps) simp

lemma matchPath_Cons:
  "Kind n \<noteq> DocumentNode \<Longrightarrow>
   matchPath ch n (head # tail) =
     (case (if head = ''**''
            then (case matchPath ch n tail of Inl e \<Rightarrow> Inl e | Inr c1 \<Rightarrow> descend c1 n (head # tail))
            else Inr ch) of
        Inl e \<Rightarrow> Inl e
      | Inr c2 \<Rightarrow> plainStep c2 n head tail)"
  apply (subst matchPath.simps)
  apply (simp only: descend_def plainStep_def matchIf_def [abs_def] if_False list.case)
  done

lemma matchPath_Document_single:
  "matchPath ch (Node DocumentNode v [c]) path = matchPath ch c path"
  by (simp add: matchPath_Document [of "Node DocumentNode v [c]"] split: sum.splits)

subsection \<open>The three kinds of iteration\<close>

lemma forEach_collect:
  "(\<And>x c. x \<in> set xs \<Longrightarrow> f x c = extend c (g x)) \<Longrightarrow>
   forEach f xs ch = extend ch (collect g xs)"
proof (induction xs arbitrary: ch)
  case Nil
  then show ?case by simp
next
  case (Cons x xs)
  have fx: "f x ch = extend ch (g x)" by (rule Cons.prems) simp
  have IH: "\<And>c. forEach f xs c = extend c (collect g xs)"
    by (rule Cons.IH) (simp add: Cons.prems)
  show ?case
    by (cases "g x") (simp_all add: fx IH)
qed

lemma forEntries_collect:
  "(\<And>x c. x \<in> set xs \<Longrightarrow> f x c = extend c (g x)) \<Longrightarrow>
   forEntries sel f xs ch =
     (if odd (length xs) \<and> sel (last xs) then Inl IndexOutOfRange
      else extend ch (collect g (selValues sel xs)))"
proof (induction sel f xs ch rule: forEntries.induct)
  case (1 sel body ch)
  then show ?case by simp
next
  case (2 sel body key ch)
  then show ?case by simp
next
  case (3 sel body key v rest ch)
  have fx: "\<And>c. body v c = extend c (g v)" by (rule "3.prems") simp
  have IH: "\<And>c. (if sel key then body v ch else Inr ch) = Inr c \<Longrightarrow> forEntries sel body rest c =
     (if odd (length rest) \<and> sel (last rest) then Inl IndexOutOfRange
      else extend c (collect g (selValues sel rest)))"
    by (rule "3.IH") (simp_all add: "3.prems")
  show ?case
  proof (cases "sel key")
    case True
    show ?thesis
    proof (cases "g v")
      case (Inl e)
      with True fx show ?thesis by (simp split: sum.splits)
    next
      case (Inr a)
      with True fx [of ch] IH [of "ch @ a"] show ?thesis
        by (cases "collect g (selValues sel rest)"; cases rest) simp_all
    qed
  next
    case False
    with IH [of ch] show ?thesis by (cases rest) simp_all
  qed
qed

lemma forValues_forEntries: "forValues f xs ch = forEntries (\<lambda>_. True) f xs ch"
  by (induction f xs ch rule: forValues.induct) (simp_all split: sum.splits)

lemma forValues_collect:
  "(\<And>x c. x \<in> set xs \<Longrightarrow> f x c = extend c (g x)) \<Longrightarrow>
   forValues f xs ch =
     (if odd (length xs) then Inl IndexOutOfRange
      else extend ch (collect g (selValues (\<lambda>_. True) xs)))"
  by (simp add: forValues_forEntries forEntries_collect [where g = g])

lemma forEntries_none:
  "\<forall>key\<in>set (mapKeys xs). \<not> sel key \<Longrightarrow> forEntries sel f xs ch = Inr ch"
  by (induction sel f xs ch rule: forEntries.induct) simp_all

lemma collect_all:
  "collect g xs = Inr out \<Longrightarrow> (\<And>x d. x \<in> set xs \<Longrightarrow> g x = Inr d \<Longrightarrow> \<forall>y\<in>set d. Q y)
   \<Longrightarrow> \<forall>y\<in>set out. Q y"
proof (induction xs arbitrary: out)
  case Nil
  then show ?case by simp
next
  case (Cons x xs)
  from Cons.prems(1) obtain a b where a: "g x = Inr a" and b: "collect g xs = Inr b"
    and out: "out = a @ b"
    by (auto split: sum.splits simp: extend_def)
  from a have "\<forall>y\<in>set a. Q y" by (rule Cons.prems(2) [rotated]) simp
  moreover from b have "\<forall>y\<in>set b. Q y"
    by (rule Cons.IH) (auto intro: Cons.prems(2) [rule_format])
  ultimately show ?case by (auto simp: out)
qed


lemma set_selValues: "set (selValues sel xs) \<subseteq> set xs"
  by (induction sel xs rule: selValues.induct) auto

subsection \<open>A run appends to the channel\<close>

lemma matchIf_frame:
  assumes "\<And>c. matchPath c v tail = extend c (matchPath [] v tail)"
  shows "matchIf query tail v ch = extend ch (matchIf query tail v [])"
  by (cases "filter_node v query") (simp_all add: matchIf_def assms [of ch])

lemma matchPath_frame: "matchPath ch n path = extend ch (matchPath [] n path)"
proof (induction n arbitrary: ch path)
  case (Node k v cs)
  let ?n = "Node k v cs"
  have child: "\<And>x c p. x \<in> set cs \<Longrightarrow> matchPath c x p = extend c (matchPath [] x p)"
    by (rule Node.IH)
  have childIf: "\<And>x c q p. x \<in> set cs \<Longrightarrow> matchIf q p x c = extend c (matchIf q p x [])"
    by (rule matchIf_frame) (rule child)
  have each: "\<And>c p. forEach (\<lambda>x c. matchPath c x p) cs c
                 = extend c (collect (\<lambda>x. matchPath [] x p) cs)"
    by (rule forEach_collect) (rule child)
  have vals: "\<And>c p. forValues (\<lambda>x c. matchPath c x p) cs c
                 = (if odd (length cs) then Inl IndexOutOfRange
                    else extend c (collect (\<lambda>x. matchPath [] x p) (selValues (\<lambda>_. True) cs)))"
    by (rule forValues_collect) (rule child)
  have entries: "\<And>sel q p c. forEntries sel (matchIf q p) cs c
                 = (if odd (length cs) \<and> sel (last cs) then Inl IndexOutOfRange
                    else extend c (collect (\<lambda>x. matchIf q p x []) (selValues sel cs)))"
    by (rule forEntries_collect) (rule childIf)
  have eachIf: "\<And>q p c. forEach (matchIf q p) cs c
                 = extend c (collect (\<lambda>x. matchIf q p x []) cs)"
    by (rule forEach_collect) (rule childIf)
  define at where "at q p i = (case index cs i of Inl e \<Rightarrow> Inl e | Inr x \<Rightarrow> matchIf q p x [])"
    for q p i
  have atI: "(case index cs i of Inl e \<Rightarrow> Inl e | Inr x \<Rightarrow> matchIf q p x c) = extend c (at q p i)"
    for q p i c
  proof (cases "index cs i")
    case (Inl e)
    then show ?thesis by (simp add: at_def)
  next
    case (Inr x)
    then have "x \<in> set cs" by (rule index_in_set)
    then have "matchIf q p x c = extend c (matchIf q p x [])" by (rule childIf)
    with Inr show ?thesis by (simp add: at_def)
  qed
  have desc: "descend c ?n p = extend c (descend [] ?n p)" for c p
    by (simp add: descend_def each vals)
  have plain: "plainStep c ?n h t = extend c (plainStep [] ?n h t)" for c h t
    by (simp add: plainStep_def entries eachIf atI split: option.splits)
  show ?case
  proof (cases "k = DocumentNode")
    case True
    then show ?thesis by (simp add: matchPath_Document each)
  next
    case False
    show ?thesis
    proof (induction path arbitrary: ch)
      case Nil
      from False show ?case by (simp add: matchPath_Nil)
    next
      case (Cons head tail)
      show ?case
      proof (cases "head = ''**''")
        case True
        show ?thesis
        proof (cases "matchPath [] ?n tail")
          case (Inl e)
          with False True Cons [of ch] show ?thesis
            by (simp add: matchPath_Cons)
        next
          case (Inr zs)
          show ?thesis
          proof (cases "descend [] ?n (head # tail)")
            case (Inl e)
            with False True Inr Cons [of ch] desc [of "ch @ zs"] desc [of zs] show ?thesis
              by (simp add: matchPath_Cons)
          next
            case ds: (Inr ds)
            with False True Inr Cons [of ch] desc [of "ch @ zs"] desc [of zs]
              plain [of "ch @ zs @ ds"] plain [of "zs @ ds"]
            show ?thesis
              by (simp add: matchPath_Cons)
          qed
        qed
      next
        case F: False
        with False plain [of ch] show ?thesis
          by (simp add: matchPath_Cons)
      qed
    qed
  qed
qed

lemma matchIf_frame': "matchIf query tail v ch = extend ch (matchIf query tail v [])"
  by (rule matchIf_frame) (rule matchPath_frame)

lemma matchPath_Document_out:
  "Kind n = DocumentNode \<Longrightarrow>
   matchPath [] n path = collect (\<lambda>doc. matchPath [] doc path) (Content n)"
  using forEach_collect [of "Content n" "\<lambda>doc c. matchPath c doc path"
      "\<lambda>doc. matchPath [] doc path" "[]"]
  by (simp add: matchPath_Document matchPath_frame [symmetric])

lemma descend_out:
  "descend [] n path =
     (if Kind n = MappingNode then
        (if odd (length (Content n)) then Inl IndexOutOfRange
         else collect (\<lambda>v. matchPath [] v path) (selValues (\<lambda>_. True) (Content n)))
      else if Kind n = SequenceNode then collect (\<lambda>child. matchPath [] child path) (Content n)
      else Inr [])"
  using forEach_collect [of "Content n" "\<lambda>x c. matchPath c x path"
      "\<lambda>x. matchPath [] x path" "[]"]
    forValues_collect [of "Content n" "\<lambda>x c. matchPath c x path"
      "\<lambda>x. matchPath [] x path" "[]"]
  by (simp add: descend_def matchPath_frame [symmetric])

lemma plainStep_out:
  "plainStep [] n head tail =
     (if Kind n = MappingNode then
        (if odd (length (Content n)) \<and>
            (matchKey head = ''*'' \<or> Value (last (Content n)) = matchKey head)
         then Inl IndexOutOfRange
         else collect (\<lambda>v. matchIf (matchQuery head) tail v [])
                (selValues (\<lambda>key. matchKey head = ''*'' \<or> Value key = matchKey head) (Content n)))
      else if Kind n = SequenceNode then
        (if matchKey head = ''*''
         then collect (\<lambda>child. matchIf (matchQuery head) tail child []) (Content n)
         else
           (case Atoi (matchKey head) of
              None \<Rightarrow> Inr []
            | Some i \<Rightarrow>
                if i < int (length (Content n)) then
                  (case index (Content n) i of
                     Inl e \<Rightarrow> Inl e
                   | Inr v \<Rightarrow> matchIf (matchQuery head) tail v [])
                else Inr []))
      else Inr [])"
  using forEach_collect [of "Content n" "matchIf (matchQuery head) tail"
      "\<lambda>x. matchIf (matchQuery head) tail x []" "[]"]
    forEntries_collect [of "Content n" "matchIf (matchQuery head) tail"
      "\<lambda>x. matchIf (matchQuery head) tail x []"
      "\<lambda>key. matchKey head = ''*'' \<or> Value key = matchKey head" "[]"]
  by (simp add: plainStep_def matchIf_frame' [symmetric])

lemma plainStep_frame: "plainStep ch n head tail = extend ch (plainStep [] n head tail)"
proof -
  have at: "(case index (Content n) i of Inl e \<Rightarrow> Inl e | Inr x \<Rightarrow> matchIf q p x ch)
      = extend ch (case index (Content n) i of Inl e \<Rightarrow> Inl e | Inr x \<Rightarrow> matchIf q p x [])"
    for i q p
    by (cases "index (Content n) i") (simp_all add: matchIf_frame' [of _ _ _ ch])
  show ?thesis
    unfolding plainStep_out
    using forEach_collect [of "Content n" "matchIf (matchQuery head) tail"
      "\<lambda>x. matchIf (matchQuery head) tail x []" ch]
    forEntries_collect [of "Content n" "matchIf (matchQuery head) tail"
      "\<lambda>x. matchIf (matchQuery head) tail x []"
      "\<lambda>key. matchKey head = ''*'' \<or> Value key = matchKey head" ch]
    by (simp add: plainStep_def matchIf_frame' [symmetric] at split: option.splits)
qed

lemma descend_frame: "descend ch n path = extend ch (descend [] n path)"
  unfolding descend_out
  using forEach_collect [of "Content n" "\<lambda>x c. matchPath c x path"
      "\<lambda>x. matchPath [] x path" ch]
    forValues_collect [of "Content n" "\<lambda>x c. matchPath c x path"
      "\<lambda>x. matchPath [] x path" ch]
  by (simp add: descend_def matchPath_frame [symmetric])

lemma matchPath_Cons_out:
  "Kind n \<noteq> DocumentNode \<Longrightarrow>
   matchPath [] n (head # tail) =
     (if head = ''**'' then
        (case matchPath [] n tail of
           Inl e \<Rightarrow> Inl e
         | Inr zs \<Rightarrow>
            (case descend [] n (head # tail) of
               Inl e \<Rightarrow> Inl e
             | Inr ds \<Rightarrow> extend (zs @ ds) (plainStep [] n head tail)))
      else plainStep [] n head tail)"
proof (cases "head = ''**''")
  case False
  assume "Kind n \<noteq> DocumentNode"
  with False show ?thesis by (simp add: matchPath_Cons)
next
  case True
  assume nd: "Kind n \<noteq> DocumentNode"
  show ?thesis
  proof (cases "matchPath [] n tail")
    case (Inl e)
    with nd True show ?thesis by (simp add: matchPath_Cons)
  next
    case zs: (Inr zs)
    show ?thesis
    proof (cases "descend [] n (head # tail)")
      case (Inl e)
      with nd True zs descend_frame [of zs n "head # tail"] show ?thesis
        by (simp add: matchPath_Cons)
    next
      case (Inr ds)
      with nd True zs descend_frame [of zs n "head # tail"]
        plainStep_frame [of "zs @ ds" n head tail] show ?thesis
        by (simp add: matchPath_Cons)
    qed
  qed
qed


lemma matchIf_Inr:
  "matchIf query tail v [] = Inr d \<Longrightarrow> matchPath [] v tail = Inr d \<or> d = []"
  by (auto simp: matchIf_def split: sum.splits if_splits)

subsection \<open>Splitting\<close>

lemma Split_no_sep: "sep \<noteq> [] \<Longrightarrow> Index s sep = None \<Longrightarrow> Split s sep = [s]"
  by (subst Split.simps) simp

lemma Split_empty: "sep \<noteq> [] \<Longrightarrow> Split '''' sep = ['''']"
  by (rule Split_no_sep) simp_all

lemma Split_Some:
  "sep \<noteq> [] \<Longrightarrow> Index s sep = Some m \<Longrightarrow>
   Split s sep = take m s # Split (drop (m + length sep) s) sep"
  by (subst Split.simps) simp

lemma Index_char:
  "Index s [c] = (if c \<in> set s then Some (length (takeWhile (\<lambda>x. x \<noteq> c) s)) else None)"
  by (induction s) auto

lemma Split_char:
  "Split s [c] =
     (if c \<in> set s
      then takeWhile (\<lambda>x. x \<noteq> c) s # Split (tl (dropWhile (\<lambda>x. x \<noteq> c) s)) [c]
      else [s])"
proof (cases "c \<in> set s")
  case False
  then show ?thesis by (simp add: Split_no_sep Index_char)
next
  case True
  let ?m = "length (takeWhile (\<lambda>x. x \<noteq> c) s)"
  have "take ?m s = takeWhile (\<lambda>x. x \<noteq> c) s"
    by (simp add: takeWhile_eq_take [symmetric])
  moreover have "drop (?m + length [c]) s = tl (dropWhile (\<lambda>x. x \<noteq> c) s)"
    by (simp add: dropWhile_eq_drop drop_Suc tl_drop)
  moreover from True have "Split s [c] = take ?m s # Split (drop (?m + length [c]) s) [c]"
    by (intro Split_Some) (simp_all add: Index_char)
  ultimately show ?thesis using True by simp
qed

lemma count_list_split:
  "c \<in> set s \<Longrightarrow> count_list s c = Suc (count_list (tl (dropWhile (\<lambda>x. x \<noteq> c) s)) c)"
  by (induction s) auto

lemma length_Split_char: "length (Split s [c]) = Suc (count_list s c)"
proof (induction s rule: length_induct)
  case (1 s)
  show ?case
  proof (cases "c \<in> set s")
    case False
    then show ?thesis by (simp add: Split_char count_list_0_iff)
  next
    case True
    let ?r = "tl (dropWhile (\<lambda>x. x \<noteq> c) s)"
    from True have "dropWhile (\<lambda>x. x \<noteq> c) s \<noteq> []" by simp
    then have "length ?r < length (dropWhile (\<lambda>x. x \<noteq> c) s)"
      by (cases "dropWhile (\<lambda>x. x \<noteq> c) s") simp_all
    also have "\<dots> \<le> length s" by (rule length_dropWhile_le)
    finally have "length (Split ?r [c]) = Suc (count_list ?r c)"
      using 1 by blast
    with True show ?thesis
      by (simp add: Split_char [of s] count_list_split)
  qed
qed

lemma Split_one_sep:
  assumes "count_list s c = 1"
  shows "Split s [c] = [takeWhile (\<lambda>x. x \<noteq> c) s, tl (dropWhile (\<lambda>x. x \<noteq> c) s)]"
proof -
  let ?r = "tl (dropWhile (\<lambda>x. x \<noteq> c) s)"
  from assms have in_s: "c \<in> set s"
    by (metis count_list_0_iff zero_neq_one)
  with assms have "count_list ?r c = 0"
    by (simp add: count_list_split)
  then have "c \<notin> set ?r"
    by (simp add: count_list_0_iff)
  then have "Split ?r [c] = [?r]"
    by (simp add: Split_char)
  with in_s show ?thesis
    by (simp add: Split_char [of s])
qed

lemma Index_take_None:
  "sep \<noteq> [] \<Longrightarrow> Index s sep = Some m \<Longrightarrow> Index (take m s) sep = None"
proof (induction s arbitrary: m)
  case Nil
  then show ?case by simp
next
  case (Cons c cs)
  show ?case
  proof (cases "take (length sep) (c # cs) = sep")
    case True
    with Cons.prems show ?thesis by simp
  next
    case False
    with Cons.prems obtain k where k: "Index cs sep = Some k" and m: "m = Suc k"
      by auto
    have "take (length sep) (c # take k cs) \<noteq> sep"
    proof
      assume eq: "take (length sep) (c # take k cs) = sep"
      then have "length (take (length sep) (c # take k cs)) = length sep"
        by simp
      then have "length sep \<le> Suc k"
        by simp
      then have "take (length sep) (c # take k cs) = take (length sep) (c # cs)"
        by (cases "length sep") (simp_all add: min_def)
      with eq False show False by simp
    qed
    with Cons.IH [OF Cons.prems(1) k] m show ?thesis by simp
  qed
qed

lemma Split_first_part:
  assumes "sep \<noteq> []"
  shows "Split (Split s sep ! 0) sep = [Split s sep ! 0]"
proof (cases "Index s sep")
  case None
  with assms show ?thesis by (simp add: Split_no_sep)
next
  case (Some m)
  with assms have "Index (take m s) sep = None"
    by (simp add: Index_take_None)
  with assms Some show ?thesis
    by (simp add: Split_Some Split_no_sep)
qed

subsection \<open>The head \<open>**\<close>\<close>




subsection \<open>The nodes that are sent\<close>

lemma descend_all:
  assumes child: "\<And>c d. c \<in> set (Content n) \<Longrightarrow> matchPath [] c p = Inr d \<Longrightarrow> \<forall>y\<in>set d. Q y"
    and run: "descend [] n p = Inr out"
  shows "\<forall>y\<in>set out. Q y"
proof -
  from run obtain xs where "collect (\<lambda>v. matchPath [] v p) xs = Inr out \<or> out = []"
    and "set xs \<subseteq> set (Content n)"
    using set_selValues [of "\<lambda>_. True" "Content n"]
    by (auto simp: descend_out split: if_splits)
  then show ?thesis
    using collect_all [of "\<lambda>v. matchPath [] v p" xs out Q] child by auto
qed

lemma plainStep_all:
  assumes child: "\<And>c d. c \<in> set (Content n) \<Longrightarrow> matchPath [] c t = Inr d \<Longrightarrow> \<forall>y\<in>set d. Q y"
    and run: "plainStep [] n h t = Inr out"
  shows "\<forall>y\<in>set out. Q y"
proof -
  have childIf: "\<forall>y\<in>set d. Q y" if "c \<in> set (Content n)" "matchIf q t c [] = Inr d" for c q d
    using matchIf_Inr [OF that(2)] child [OF that(1)] by auto
  from run consider
    (entries) xs where "collect (\<lambda>v. matchIf (matchQuery h) t v []) xs = Inr out"
      "set xs \<subseteq> set (Content n)"
    | (at) i x where "index (Content n) i = Inr x" "matchIf (matchQuery h) t x [] = Inr out"
    | (none) "out = []"
    using set_selValues [of "\<lambda>key. matchKey h = ''*'' \<or> Value key = matchKey h" "Content n"]
    by (fastforce simp: plainStep_out split: if_splits option.splits sum.splits)
  then show ?thesis
  proof cases
    case entries
    then show ?thesis
      using collect_all [of "\<lambda>v. matchIf (matchQuery h) t v []" xs out Q] childIf by blast
  next
    case at
    then show ?thesis
      using childIf index_in_set by blast
  next
    case none
    then show ?thesis by simp
  qed
qed

lemma matchPath_all:
  assumes self: "\<And>m. m \<in> N \<Longrightarrow> Kind m \<noteq> DocumentNode \<Longrightarrow> Q m"
    and closed: "\<And>m c. m \<in> N \<Longrightarrow> c \<in> set (Content m) \<Longrightarrow> c \<in> N"
  shows "n \<in> N \<Longrightarrow> matchPath [] n path = Inr out \<Longrightarrow> \<forall>y\<in>set out. Q y"
proof (induction n arbitrary: path out)
  case (Node k v cs)
  let ?n = "Node k v cs"
  have child: "\<forall>y\<in>set d. Q y" if "c \<in> set (Content ?n)" "matchPath [] c p = Inr d" for c p d
    using that Node.IH [of c p d] closed [OF Node.prems(1), of c] by simp
  show ?case
  proof (cases "k = DocumentNode")
    case True
    with Node.prems have "collect (\<lambda>doc. matchPath [] doc path) cs = Inr out"
      by (simp add: matchPath_Document_out)
    then show ?thesis
      by (rule collect_all) (use child in simp)
  next
    case False
    from Node.prems(2) show ?thesis
    proof (induction path arbitrary: out)
      case Nil
      with False self [OF Node.prems(1)] show ?case by (auto simp: matchPath_Nil)
    next
      case (Cons head tail)
      show ?case
      proof (cases "head = ''**''")
        case True
        with False Cons.prems obtain zs ds ps where "matchPath [] ?n tail = Inr zs"
          "descend [] ?n (head # tail) = Inr ds" "plainStep [] ?n head tail = Inr ps"
          "out = zs @ ds @ ps"
          by (auto simp: matchPath_Cons_out extend_def split: sum.splits)
        with Cons.IH [of zs] descend_all [of ?n "head # tail" Q ds, OF child]
          plainStep_all [of ?n tail Q head ps, OF child]
        show ?thesis by auto
      next
        case F: False
        with False Cons.prems plainStep_all [of ?n tail Q head out, OF child] show ?thesis
          by (simp add: matchPath_Cons_out)
      qed
    qed
  qed
qed

lemma matchPath_no_Document:
  assumes "matchPath [] n path = Inr out"
  shows "\<forall>y\<in>set out. Kind y \<noteq> DocumentNode"
  using matchPath_all [of UNIV "\<lambda>y. Kind y \<noteq> DocumentNode" n path out] assms by simp

lemma matchPath_size:
  assumes "matchPath [] n path = Inr out"
  shows "\<forall>y\<in>set out. size y \<le> size n"
proof -
  let ?N = "{m. size m \<le> size n}"
  have closed: "c \<in> ?N" if "m \<in> ?N" "c \<in> set (Content m)" for m c
    using that size_Content [of c m] by simp
  have "n \<in> ?N" by simp
  with closed show ?thesis
    by (rule matchPath_all [of ?N "\<lambda>y. size y \<le> size n", rotated]) (use assms in simp_all)
qed

lemma plainStep_smaller:
  assumes "plainStep [] n h t = Inr out"
  shows "\<forall>y\<in>set out. size y < size n"
proof (rule plainStep_all [OF _ assms])
  fix c d
  assume "c \<in> set (Content n)" and "matchPath [] c t = Inr d"
  then show "\<forall>y\<in>set d. size y < size n"
    using matchPath_size [of c t d] size_Content [of c n] by auto
qed

subsection \<open>Indices into a sequence\<close>

text \<open>
  A head that does not parse as a number, or parses to a number that is not below the
  length, yields no match and no panic; a head that parses to a negative number makes
  the read of line 121 panic, and so does a negative filter key at line 151.
\<close>

lemma sequence_index_no_match:
  assumes "Kind n = SequenceNode" and "matchKey head \<noteq> ''*''"
    and "Atoi (matchKey head) = None \<or> (\<exists>i. Atoi (matchKey head) = Some i \<and> int (length (Content n)) \<le> i)"
  shows "plainStep ch n head tail = Inr ch"
  using assms by (auto simp: plainStep_def)

lemma sequence_index_negative:
  assumes "Kind n = SequenceNode" and "Atoi (matchKey head) = Some i" and "i < 0"
  shows "plainStep ch n head tail = Inl IndexOutOfRange"
proof -
  have "Atoi ''*'' = None"
    by (simp add: Atoi_def digit_def)
  with assms(2) have "matchKey head \<noteq> ''*''"
    by auto
  with assms show ?thesis
    by (simp add: plainStep_def index_def)
qed

lemma filter_index_negative:
  assumes "Kind n = SequenceNode" and "Atoi (Split q ''=='' ! 0) = Some i" and "i < 0"
  shows "filterClause n q = Inl IndexOutOfRange"
  using assms by (simp add: filterClause_def lookupChild_def index_def Let_def)

section \<open>The examples of the specification\<close>

text \<open>
  The testable properties 1 to 7 of the specification, on the template \<open>resources\<close>.
\<close>

lemma wildcard_in_document_order:
  "map_sum id (map Value) (MatchPath resources ''Resources/*/Type'') = Inr [''X'', ''Y'']"
  by code_simp

lemma two_matches_give_nil: "GetPath resources ''Resources/*/Type'' = Inr None"
  by code_simp

lemma one_match_is_returned: "GetPath resources ''Resources/A/Type'' = Inr (Some (scalar ''X''))"
  by code_simp

lemma filter_excludes:
  "MatchPath resources ''Resources/*|Type==X/Properties/Name'' = Inr [scalar ''foo'']"
  by code_simp

lemma descent_finds_name: "MatchPath resources ''**/Name'' = Inr [scalar ''foo'']"
  by code_simp

lemma absent_key_no_match: "MatchPath resources ''Resources/C/Type'' = Inr []"
  by code_simp

lemma index_too_large_no_match:
  "MatchPath (Template (document [mapping [scalar ''Resources'', sequence [scalar ''r'']]]))
     ''Resources/9/Type'' = Inr []"
  by code_simp

section \<open>The facade: \<open>GetPath\<close> against \<open>MatchPath\<close>\<close>

text \<open>
  Claim C1.  For every path, \<open>GetPath\<close> returns a node exactly when \<open>MatchPath\<close> sends
  exactly one node, and then it returns that node; it returns nil exactly when
  \<open>MatchPath\<close> ends having sent no node or more than one, and the nil of the one case
  is the nil of the other.
\<close>

theorem GetPath_iff_single_match:
  "(GetPath t p = Inr (Some n)) = (MatchPath t p = Inr [n]) \<and>
   (GetPath t p = Inr None) =
     (MatchPath t p = Inr [] \<or> (\<exists>a b ns. MatchPath t p = Inr (a # b # ns)))"
proof (cases "MatchPath t p")
  case (Inl e)
  then show ?thesis by (simp add: GetPath_def)
next
  case (Inr results)
  show ?thesis
  proof (cases results)
    case Nil
    with Inr show ?thesis by (simp add: GetPath_def)
  next
    case (Cons a rest)
    with Inr show ?thesis by (cases rest) (auto simp: GetPath_def)
  qed
qed

section \<open>Recursive descent\<close>




section \<open>Indices\<close>

text \<open>
  Claim C3 says that an index that does not parse or is out of range, negative values
  included, yields no match (or a failed clause) and that no element of a sequence is
  read outside its bounds.  That holds for what does not parse and for what is too
  large (\<open>sequence_index_no_match\<close>), not for negative numbers: a head that parses to a
  negative number passes the test \<open>i < len(n.Content)\<close> of line 120, a filter key that
  does passes the test of line 148, and \<open>n.Content[i]\<close> is read below the bounds.
  The run panics.
\<close>

theorem negative_index_panics:
  "Atoi ''-1'' = Some (- 1) \<and>
   MatchPath (Template (document [sequence [scalar ''a'']])) ''-1'' = Inl IndexOutOfRange \<and>
   filter_node (sequence [scalar ''a'']) [''-1''] = Inl IndexOutOfRange \<and>
   MatchPath (Template (document [mapping [scalar ''k'', sequence [scalar ''a'']]])) ''*|-1''
     = Inl IndexOutOfRange"
  by code_simp

section \<open>The filter of a segment\<close>

text \<open>
  Claim C4, amended.  The head is split at every \<open>|\<close>, and only a split into exactly
  two parts is taken apart.  So a segment with exactly one \<open>|\<close> has the text before it
  as match key and the text behind it as its one filter query; a segment with no \<open>|\<close>,
  or with two or more, is left whole: it is its own match key and carries no filter.
\<close>

theorem segment_filter_extraction:
  "length (Split head ''|'') = Suc (count_list head CHR ''|'') \<and>
   (matchKey head, matchQuery head) =
     (if count_list head CHR ''|'' = 1
      then (takeWhile (\<lambda>x. x \<noteq> CHR ''|'') head, [tl (dropWhile (\<lambda>x. x \<noteq> CHR ''|'') head)])
      else (head, []))"
proof (cases "count_list head CHR ''|'' = 1")
  case True
  then show ?thesis
    by (simp add: matchKey_def matchQuery_def Split_one_sep)
next
  case False
  then have "length (Split head ''|'') \<noteq> 2"
    by (simp add: length_Split_char)
  with False show ?thesis
    by (simp add: matchKey_def matchQuery_def length_Split_char)
qed

text \<open>
  The segment \<open>a|b|c\<close> splits into three parts, not two, and keeps no filter: its
  match key is the whole segment, and \<open>b|c\<close> is not its filter query.
\<close>

theorem segment_two_bars_counterexample:
  "Split ''a|b|c'' ''|'' = [''a'', ''b'', ''c''] \<and>
   length (Split ''a|b|c'' ''|'') = 3 \<and>
   matchKey ''a|b|c'' = ''a|b|c'' \<and>
   matchQuery ''a|b|c'' = [] \<and>
   matchQuery ''a|b|c'' \<noteq> [''b|c''] \<and>
   MatchPath (Template (document [mapping [scalar ''a'', mapping [scalar ''b|c'', scalar ''v'']]])) ''a|b|c''
     = Inr [] \<and>
   MatchPath (Template (document [mapping [scalar ''a'', mapping [scalar ''b|c'', scalar ''v'']]])) ''a''
     = Inr [mapping [scalar ''b|c'', scalar ''v'']]"
  by code_simp

section \<open>The equality clause of a filter\<close>

text \<open>
  Claim C5, amended.  For a query that splits at \<open>==\<close> into exactly two parts and a
  candidate in which the key is found, the clause fails exactly when the literal value
  of the child that was found differs from the second part; the kind of the child
  plays no role.  A child that is not a scalar fails like a scalar when its value
  differs, and passes like a scalar when its value equals the expected part.
\<close>

theorem equality_clause_compares_value:
  assumes "length (Split q ''=='') = 2"
    and "lookupChild n (Split q ''=='' ! 0) = Inr (Some v)"
  shows "filterClause n q = Inr (Value v = Split q ''=='' ! 1) \<and>
         filter_node n [q] = Inr (Value v = Split q ''=='' ! 1)"
  using assms by (simp add: filterClause_def Let_def)

theorem equality_clause_compares_value_witness:
  "length (Split ''Type==X'' ''=='') = 2 \<and>
   lookupChild (mapping [scalar ''Type'', sequence []]) (Split ''Type==X'' ''=='' ! 0)
     = Inr (Some (sequence [])) \<and>
   filterClause (mapping [scalar ''Type'', sequence []]) ''Type==X''
     = Inr (Value (sequence []) = Split ''Type==X'' ''=='' ! 1) \<and>
   filter_node (mapping [scalar ''Type'', sequence []]) [''Type==X'']
     = Inr (Value (sequence []) = Split ''Type==X'' ''=='' ! 1)"
proof -
  have h1: "length (Split ''Type==X'' ''=='') = 2"
    by code_simp
  have h2: "lookupChild (mapping [scalar ''Type'', sequence []]) (Split ''Type==X'' ''=='' ! 0)
     = Inr (Some (sequence []))"
    by code_simp
  from h1 h2 equality_clause_compares_value [OF h1 h2] show ?thesis
    by blast
qed

text \<open>
  The query \<open>K==\<close> splits into the two parts \<open>K\<close> and the empty string.  In the
  mapping \<open>{K: {}}\<close> the child found under \<open>K\<close> is a mapping, not a scalar, with the
  empty literal value every mapping node has: the clause passes, and the path
  \<open>*|K==\<close> selects the candidate.
\<close>

theorem non_scalar_passes_equality_counterexample:
  "Split ''K=='' ''=='' = [''K'', ''''] \<and>
   lookupChild (mapping [scalar ''K'', mapping []]) ''K'' = Inr (Some (mapping [])) \<and>
   Kind (mapping []) \<noteq> ScalarNode \<and>
   filterClause (mapping [scalar ''K'', mapping []]) ''K=='' = Inr True \<and>
   filter_node (mapping [scalar ''K'', mapping []]) [''K==''] = Inr True \<and>
   MatchPath (Template (document [mapping [scalar ''R'', mapping [scalar ''K'', mapping []]]])) ''*|K==''
     = Inr [mapping [scalar ''K'', mapping []]]"
  by code_simp

text \<open>
  Claim C6, amended.  A query that splits at \<open>==\<close> into more than two parts is not
  compared at all: the test \<open>len(parts) == 2\<close> fails, and everything behind the first
  part is ignored, the second part too.  The clause evaluates as the query made of the
  first part alone does, a test that the key is there.
\<close>

theorem long_query_is_existence_test:
  assumes "2 < length (Split q ''=='')"
  shows "filterClause n q = filterClause n (Split q ''=='' ! 0) \<and>
         filter_node n [q] = filter_node n [Split q ''=='' ! 0]"
proof -
  have "Split (Split q ''=='' ! 0) ''=='' = [Split q ''=='' ! 0]"
    by (rule Split_first_part) simp
  moreover from assms have "length (Split q ''=='') \<noteq> 2"
    by simp
  ultimately have "filterClause n q = filterClause n (Split q ''=='' ! 0)"
    by (simp add: filterClause_def Let_def split: sum.splits option.splits)
  then show ?thesis
    by simp
qed

theorem long_query_is_existence_test_witness:
  "2 < length (Split ''key==a==b'' ''=='') \<and>
   filterClause (mapping [scalar ''key'', scalar ''z'']) ''key==a==b''
     = filterClause (mapping [scalar ''key'', scalar ''z'']) (Split ''key==a==b'' ''=='' ! 0) \<and>
   filter_node (mapping [scalar ''key'', scalar ''z'']) [''key==a==b'']
     = filter_node (mapping [scalar ''key'', scalar ''z'']) [Split ''key==a==b'' ''=='' ! 0]"
proof -
  have h: "2 < length (Split ''key==a==b'' ''=='')"
    by code_simp
  from h long_query_is_existence_test [OF h] show ?thesis
    by blast
qed

text \<open>
  In the mapping \<open>{key: z}\<close> the query \<open>key==a==b\<close> passes, as \<open>key\<close> does, while its
  first two parts \<open>key==a\<close> fail.
\<close>

theorem long_query_not_truncated_counterexample:
  "Split ''key==a==b'' ''=='' = [''key'', ''a'', ''b''] \<and>
   filter_node (mapping [scalar ''key'', scalar ''z'']) [''key==a==b''] = Inr True \<and>
   filter_node (mapping [scalar ''key'', scalar ''z'']) [''key==a''] = Inr False \<and>
   filter_node (mapping [scalar ''key'', scalar ''z'']) [''key''] = Inr True \<and>
   MatchPath (Template (document [mapping [scalar ''R'', mapping [scalar ''key'', scalar ''z'']]]))
     ''*|key==a==b'' = Inr [mapping [scalar ''key'', scalar ''z'']] \<and>
   MatchPath (Template (document [mapping [scalar ''R'', mapping [scalar ''key'', scalar ''z'']]]))
     ''*|key==a'' = Inr []"
  by code_simp

section \<open>The empty path\<close>

text \<open>
  Claim C7.  The empty path splits into one segment, the empty string, so that
  \<open>matchPath\<close> starts with a non-empty segment list.  The root is never sent: at a
  root that is not a document the result is that of matching the key \<open>""\<close> against
  the entries of the root (lines 100-127), which sends nodes below the root only.  A
  root mapping none of whose keys is the empty string yields no match, be it the root
  of the template or the one content node of its document node.
\<close>

theorem MatchPath_empty_path:
  "Split '''' ''/'' = [''''] \<and>
   MatchPath t '''' = matchPath [] (tNode t) [''''] \<and>
   (MatchPath t '''' = Inr ns \<longrightarrow> tNode t \<notin> set ns) \<and>
   (Kind n \<noteq> DocumentNode \<longrightarrow> MatchPath (Template n) '''' = plainStep [] n '''' []) \<and>
   (Kind n = MappingNode \<and> '''' \<notin> Value ` set (mapKeys (Content n)) \<longrightarrow>
      MatchPath (Template n) '''' = Inr [] \<and>
      MatchPath (Template (Node DocumentNode v [n])) '''' = Inr [])"
proof -
  have split: "Split '''' ''/'' = ['''']"
    by (rule Split_empty) simp
  have key: "matchKey '''' = ''''" and query: "matchQuery '''' = []"
    by (simp_all add: matchKey_def matchQuery_def Split_empty)
  have plain: "MatchPath (Template m) '''' = plainStep [] m '''' []" if "Kind m \<noteq> DocumentNode" for m
    using that by (simp add: MatchPath_def split matchPath_Cons)
  have root: "tNode t \<notin> set ns" if run: "MatchPath t '''' = Inr ns"
  proof (cases "Kind (tNode t) = DocumentNode")
    case True
    from run have "\<forall>y\<in>set ns. Kind y \<noteq> DocumentNode"
      unfolding MatchPath_def by (rule matchPath_no_Document)
    with True show ?thesis by blast
  next
    case False
    with run plain [of "tNode t"] have "plainStep [] (tNode t) '''' [] = Inr ns"
      by simp
    then have "\<forall>y\<in>set ns. size y < size (tNode t)"
      by (rule plainStep_smaller)
    then show ?thesis by blast
  qed
  have none: "plainStep [] n '''' [] = Inr []"
    if "Kind n = MappingNode" "'''' \<notin> Value ` set (mapKeys (Content n))"
  proof -
    from that(2) have "\<forall>key\<in>set (mapKeys (Content n)). \<not> ('''' = ''*'' \<or> Value key = '''')"
      by (auto simp: image_iff)
    then have "forEntries (\<lambda>key. '''' = ''*'' \<or> Value key = '''') (matchIf (matchQuery '''') [])
        (Content n) [] = Inr []"
      by (rule forEntries_none)
    with that(1) show ?thesis
      by (simp add: plainStep_def key)
  qed
  have doc: "MatchPath (Template (Node DocumentNode v [n])) '''' = MatchPath (Template n) ''''"
    by (simp add: MatchPath_def matchPath_Document_single)
  have "MatchPath t '''' = matchPath [] (tNode t) ['''']"
    by (simp add: MatchPath_def split)
  with split root plain [of n] none doc show ?thesis
    by auto
qed

theorem MatchPath_empty_path_witness:
  "MatchPath (Template (document [mapping [scalar '''', scalar ''a'']])) '''' = Inr [scalar ''a''] \<and>
   tNode (Template (document [mapping [scalar '''', scalar ''a'']])) \<notin> set [scalar ''a''] \<and>
   Kind (mapping [scalar ''k'', scalar ''a'']) \<noteq> DocumentNode \<and>
   Kind (mapping [scalar ''k'', scalar ''a'']) = MappingNode \<and>
   '''' \<notin> Value ` set (mapKeys (Content (mapping [scalar ''k'', scalar ''a'']))) \<and>
   MatchPath (Template (mapping [scalar ''k'', scalar ''a''])) ''''
     = plainStep [] (mapping [scalar ''k'', scalar ''a'']) '''' [] \<and>
   MatchPath (Template (mapping [scalar ''k'', scalar ''a''])) '''' = Inr [] \<and>
   MatchPath (Template (Node DocumentNode '''' [mapping [scalar ''k'', scalar ''a'']])) '''' = Inr []"
proof -
  have h0: "MatchPath (Template (document [mapping [scalar '''', scalar ''a'']])) '''' = Inr [scalar ''a'']"
    by code_simp
  have h1: "Kind (mapping [scalar ''k'', scalar ''a'']) \<noteq> DocumentNode"
    and h2: "Kind (mapping [scalar ''k'', scalar ''a'']) = MappingNode"
    and h3: "'''' \<notin> Value ` set (mapKeys (Content (mapping [scalar ''k'', scalar ''a''])))"
    by (simp_all add: mapping_def scalar_def)
  from h0 h1 h2 h3
    MatchPath_empty_path [of "Template (document [mapping [scalar '''', scalar ''a'']])"
      "[scalar ''a'']" "mapping [scalar ''k'', scalar ''a'']" "''''"]
  show ?thesis by blast
qed

section \<open>The plain step after a recursive descent\<close>




section \<open>Determinism\<close>


section \<open>Document nodes are never sent\<close>

text \<open>
  Claim C10.  No node sent by \<open>MatchPath\<close> is a document node.  The test on the kind
  comes first in \<open>matchPath\<close>: when the path is used up at a document node, the run
  goes into the children of the document with the empty path, and sends them (or, for a
  child that is a document again, its children) and not the document.
\<close>

theorem MatchPath_never_Document:
  "(MatchPath t p = Inr ns \<longrightarrow> (\<forall>n\<in>set ns. Kind n \<noteq> DocumentNode)) \<and>
   (Kind d = DocumentNode \<longrightarrow>
      matchPath ch d [] = forEach (\<lambda>doc c. matchPath c doc []) (Content d) ch \<and>
      matchPath ch d [] \<noteq> Inr (ch @ [d]))"
proof (intro conjI impI)
  assume "MatchPath t p = Inr ns"
  then show "\<forall>n\<in>set ns. Kind n \<noteq> DocumentNode"
    unfolding MatchPath_def by (rule matchPath_no_Document)
next
  assume "Kind d = DocumentNode"
  then show "matchPath ch d [] = forEach (\<lambda>doc c. matchPath c doc []) (Content d) ch"
    by (rule matchPath_Document)
next
  assume d: "Kind d = DocumentNode"
  show "matchPath ch d [] \<noteq> Inr (ch @ [d])"
  proof
    assume "matchPath ch d [] = Inr (ch @ [d])"
    then have "matchPath [] d [] = Inr [d]"
      using matchPath_frame [of ch d "[]"] by (cases "matchPath [] d []") simp_all
    then have "\<forall>y\<in>set [d]. Kind y \<noteq> DocumentNode" by (rule matchPath_no_Document)
    with d show False by simp
  qed
qed

theorem MatchPath_never_Document_witness:
  "MatchPath (Template (document [document [scalar ''a'']])) ''**'' = Inr [scalar ''a''] \<and>
   Kind (scalar ''a'') \<noteq> DocumentNode \<and>
   Kind (document [scalar ''a'']) = DocumentNode \<and>
   matchPath [] (document [scalar ''a'']) []
     = forEach (\<lambda>doc c. matchPath c doc []) (Content (document [scalar ''a''])) [] \<and>
   matchPath [] (document [scalar ''a'']) [] \<noteq> Inr ([] @ [document [scalar ''a'']])"
proof -
  have h1: "MatchPath (Template (document [document [scalar ''a'']])) ''**'' = Inr [scalar ''a'']"
    by code_simp
  have h2: "Kind (document [scalar ''a'']) = DocumentNode"
    by (simp add: document_def)
  note inst = MatchPath_never_Document [of "Template (document [document [scalar ''a'']])" "''**''"
      "[scalar ''a'']" "document [scalar ''a'']" "[]"]
  from inst h1 have "\<forall>n\<in>set [scalar ''a'']. Kind n \<noteq> DocumentNode"
    by blast
  then have h3: "Kind (scalar ''a'') \<noteq> DocumentNode"
    by simp
  from inst h2 have
    "matchPath [] (document [scalar ''a'']) []
       = forEach (\<lambda>doc c. matchPath c doc []) (Content (document [scalar ''a''])) [] \<and>
     matchPath [] (document [scalar ''a'']) [] \<noteq> Inr ([] @ [document [scalar ''a'']])"
    by blast
  with h1 h2 h3 show ?thesis
    by blast
qed

end
